theory Spec2Isabelle
  imports Complex_Main "HOL-Library.Word"
begin

unbundle bit_operations_syntax

section \<open>Data model\<close>

text \<open>
  The program is \<^verbatim>\<open>src/index.ts\<close>: a Base32 codec (\<^verbatim>\<open>stringToBase32\<close>,
  \<^verbatim>\<open>base32Decode\<close>) and the TOTP pipeline (\<^verbatim>\<open>generateHMAC\<close>, \<^verbatim>\<open>generateTOTP\<close>,
  \<^verbatim>\<open>verifyTOTP\<close>).

  \<^item> A \<^verbatim>\<open>Uint8Array\<close> is a list of 8-bit words.
  \<^item> A source string is a \<^typ>\<open>string\<close>: one \<^typ>\<open>char\<close> per code unit, which covers the
    code units \<open>0x00\<close> to \<open>0xFF\<close>.
  \<^item> The numbers of the source are integers wherever they are defined; the one other value
    the code can reach is \<^verbatim>\<open>NaN\<close> (arithmetic on \<^verbatim>\<open>undefined\<close>, \<^verbatim>\<open>parseInt\<close> of
    a string without digits), modelled as \<open>None\<close>. Values read from bytes are never negative
    and are \<^typ>\<open>nat\<close>; the timestamp and the counter are \<^typ>\<open>int\<close>. The model covers
    the timestamps that are integers (as \<^verbatim>\<open>Date.now()\<close> gives them); a number of the
    source is a binary64 floating-point number, so a timestamp that the code can receive is
    an integer that binary64 holds.
  \<^item> Arithmetic on numbers is exact in the model where it is exact in binary64: on the
    integers below \<open>2\<^sup>5\<^sup>3\<close>, in \<^verbatim>\<open>%\<close>, and in a division by 256 followed by
    \<^verbatim>\<open>Math.floor\<close>. The one division that binary64 rounds, \<^verbatim>\<open>timestamp / 30000\<close>, is
    modelled with its rounding (\<open>floorDoubleDiv\<close> below).
  \<^item> A \<^verbatim>\<open>throw\<close> (and a rejected promise) is the left injection of a sum.
\<close>

type_synonym byte = "8 word"

datatype error =
    InvalidBase32   \<comment> \<open>\<^verbatim>\<open>new Error('Invalid base32 string provided')\<close>\<close>
  | HmacFailure     \<comment> \<open>a rejection of \<^verbatim>\<open>crypto.subtle.importKey\<close> or \<^verbatim>\<open>crypto.subtle.sign\<close>\<close>

section \<open>String and number primitives of the host language\<close>

definition padStart :: "nat \<Rightarrow> char \<Rightarrow> string \<Rightarrow> string" where
  "padStart n c s = replicate (n - length s) c @ s"

definition padEnd :: "nat \<Rightarrow> char \<Rightarrow> string \<Rightarrow> string" where
  "padEnd n c s = s @ replicate (n - length s) c"

text \<open>\<^verbatim>\<open>s.slice(i, j)\<close> for \<open>0 \<le> i \<le> j\<close>: the characters at positions \<open>i\<close> to \<open>j - 1\<close> that exist.\<close>

definition slice :: "nat \<Rightarrow> nat \<Rightarrow> string \<Rightarrow> string" where
  "slice i j s = take (j - i) (drop i s)"

definition digitChar :: "nat \<Rightarrow> char" where
  "digitChar d = ''0123456789'' ! d"

text \<open>\<^verbatim>\<open>n.toString(r)\<close> for a non-negative integer \<open>n\<close> and a radix \<open>2 \<le> r \<le> 10\<close>.\<close>

function toStringRadix :: "nat \<Rightarrow> nat \<Rightarrow> string" where
  "toStringRadix r n =
     (if n < r \<or> r < 2 then [digitChar n]
      else toStringRadix r (n div r) @ [digitChar (n mod r)])"
  by pat_completeness auto
termination
  by (relation "measure (\<lambda>(r, n). n)") auto

declare toStringRadix.simps [simp del]

text \<open>The number of binary digits of a number: 0 for 0, and \<open>k\<close> from \<open>2\<^sup>k\<^sup>-\<^sup>1\<close> up to \<open>2\<^sup>k - 1\<close>.\<close>

function bitLength :: "nat \<Rightarrow> nat" where
  "bitLength n = (if n = 0 then 0 else Suc (bitLength (n div 2)))"
  by pat_completeness auto
termination
  by (relation "measure (\<lambda>n. n)") auto

declare bitLength.simps [simp del]

text \<open>
  Division of binary64 numbers, for an integer \<open>a > 0\<close> and an integer \<open>b > 0\<close>. The
  quotient \<open>a / b\<close> lies in one binade, from \<open>2\<^sup>L\<close> up to \<open>2\<^sup>L\<^sup>+\<^sup>1\<close>, and the binary64
  numbers there are the multiples \<open>m * 2\<^sup>e\<close> of \<open>2\<^sup>e\<close> with \<open>e = L - 52\<close>.
  \<open>quotientExponent a b\<close> is that \<open>e\<close>: \<open>L\<close> is the difference of the bit lengths, or one
  less when \<open>a / b\<close> is below that power of 2.
\<close>

definition quotientExponent :: "nat \<Rightarrow> nat \<Rightarrow> int" where
  "quotientExponent a b =
     (let d = int (bitLength a) - int (bitLength b)
      in (if (if 0 \<le> d then b * 2 ^ nat d \<le> a else b \<le> a * 2 ^ nat (- d))
          then d else d - 1) - 52)"

text \<open>The integer nearest to \<open>num / den\<close>, the even one of the two when both are as near.\<close>

definition roundHalfEven :: "nat \<Rightarrow> nat \<Rightarrow> nat" where
  "roundHalfEven num den =
     (let m = num div den; r = num mod den
      in if den < 2 * r \<or> (2 * r = den \<and> odd m) then m + 1 else m)"

text \<open>
  \<^verbatim>\<open>Math.floor(a / b)\<close> for an integer \<open>a\<close> and an integer \<open>b > 0\<close> that binary64 holds:
  the quotient is rounded to the nearest binary64 number \<open>m * 2\<^sup>e\<close> (ties to the even
  \<open>m\<close>, the sign set aside and put back), and then the floor is taken. The quotient of
  integers below \<open>2\<^sup>1\<^sup>0\<^sup>2\<^sup>4\<close> neither overflows nor is subnormal.
\<close>

definition floorDoubleDiv :: "int \<Rightarrow> nat \<Rightarrow> int" where
  "floorDoubleDiv a b =
     (if a = 0 then 0
      else
        let n = nat \<bar>a\<bar>;
            e = quotientExponent n b;
            m = (if 0 \<le> e then roundHalfEven n (b * 2 ^ nat e)
                 else roundHalfEven (n * 2 ^ nat (- e)) b);
            sm = (if a < 0 then - int m else int m)
        in if 0 \<le> e then sm * 2 ^ nat e else sm div 2 ^ nat (- e))"

definition isBit :: "char \<Rightarrow> bool" where
  "isBit c \<longleftrightarrow> c = CHR ''0'' \<or> c = CHR ''1''"

text \<open>
  \<^verbatim>\<open>parseInt(s, 2)\<close> on a string that does not start with white space or a sign: the value
  of the longest prefix of binary digits, \<^verbatim>\<open>NaN\<close> when that prefix is empty.
\<close>

definition parseInt2 :: "string \<Rightarrow> nat option" where
  "parseInt2 s =
     (let ds = takeWhile isBit s
      in if ds = [] then None
         else Some (foldl (\<lambda>a c. 2 * a + (if c = CHR ''1'' then 1 else 0)) 0 ds))"

text \<open>Storing a number into a \<^verbatim>\<open>Uint8Array\<close>: modulo 256, \<^verbatim>\<open>NaN\<close> becomes 0.\<close>

definition toUint8 :: "nat option \<Rightarrow> byte" where
  "toUint8 v = (case v of None \<Rightarrow> 0 | Some n \<Rightarrow> of_nat n)"

text \<open>
  \<^verbatim>\<open>c.toUpperCase()\<close> for one code unit. The letters \<open>a\<close> to \<open>z\<close> go to \<open>A\<close> to \<open>Z\<close>. The
  other code units below \<open>0x80\<close> are unchanged. For the code units from \<open>0x80\<close> to \<open>0xFF\<close>
  the source's result is a string that is no key of the lookup table of \<^verbatim>\<open>base32Decode\<close>;
  they are left unchanged here, which is no key of it either.
\<close>

definition toUpperCase :: "char \<Rightarrow> char" where
  "toUpperCase c =
     (if 97 \<le> (of_char c :: nat) \<and> (of_char c :: nat) \<le> 122
      then char_of ((of_char c :: nat) - 32) else c)"

text \<open>\<^verbatim>\<open>new TextEncoder().encode(text)\<close>: UTF-8, one byte below \<open>0x80\<close>, two bytes from there.\<close>

definition utf8 :: "char \<Rightarrow> byte list" where
  "utf8 c =
     (let n = (of_char c :: nat)
      in if n < 128 then [of_nat n]
         else [of_nat (192 + n div 64), of_nat (128 + n mod 64)])"

definition TextEncoder_encode :: "string \<Rightarrow> byte list" where
  "TextEncoder_encode text = concat (map utf8 text)"

section \<open>Base32: \<^verbatim>\<open>stringToBase32\<close>\<close>

definition alphabet :: string where
  "alphabet = ''ABCDEFGHIJKLMNOPQRSTUVWXYZ234567''"

text \<open>\<^verbatim>\<open>output += alphabet[k]\<close>: an index that is no position of the string gives \<^verbatim>\<open>undefined\<close>.\<close>

definition alphabetAt :: "nat option \<Rightarrow> string" where
  "alphabetAt k =
     (case k of
        None \<Rightarrow> ''undefined''
      | Some n \<Rightarrow> if n < length alphabet then [alphabet ! n] else ''undefined'')"

text \<open>The first loop: every byte as eight binary digits.\<close>

fun bytesToBits :: "byte list \<Rightarrow> string \<Rightarrow> string" where
  "bytesToBits [] bits = bits"
| "bytesToBits (b # byteArray) bits =
     bytesToBits byteArray (bits @ padStart 8 (CHR ''0'') (toStringRadix 2 (unat b)))"

text \<open>The second loop: groups of five digits from position \<open>i\<close> on, the last one padded with zeros.\<close>

function encodeGroups :: "nat \<Rightarrow> string \<Rightarrow> string \<Rightarrow> string" where
  "encodeGroups i bits output =
     (if i < length bits
      then encodeGroups (i + 5) bits
             (output @ alphabetAt (parseInt2 (padEnd 5 (CHR ''0'') (slice i (i + 5) bits))))
      else output)"
  by pat_completeness auto
termination
  by (relation "measure (\<lambda>(i, bits, output). length bits - i)") auto

declare encodeGroups.simps [simp del]

text \<open>The third loop: \<open>=\<close> until the length is a multiple of 8.\<close>

function padOutput :: "string \<Rightarrow> string" where
  "padOutput output =
     (if length output mod 8 \<noteq> 0 then padOutput (output @ ''='') else output)"
  by pat_completeness auto
termination
proof (relation "measure (\<lambda>output. (8 - length output mod 8) mod 8)")
  fix s :: string
  assume nz: "length s mod 8 \<noteq> 0"
  have lt: "length s mod 8 < 8" by simp
  have "Suc (length s) mod 8 = (if length s mod 8 = 7 then 0 else Suc (length s mod 8))"
    by (simp add: mod_Suc)
  with nz lt show "(s @ ''='', s) \<in> measure (\<lambda>output. (8 - length output mod 8) mod 8)"
    by (simp split: if_splits)
qed simp

declare padOutput.simps [simp del]

definition encodeBytes :: "byte list \<Rightarrow> string" where
  "encodeBytes byteArray = padOutput (encodeGroups 0 (bytesToBits byteArray []) [])"

definition stringToBase32 :: "string \<Rightarrow> string" where
  "stringToBase32 text = encodeBytes (TextEncoder_encode text)"

section \<open>Base32: \<^verbatim>\<open>base32Decode\<close>\<close>

definition base32Lookup :: "char \<Rightarrow> nat option" where
  "base32Lookup = map_of
     [(CHR ''A'', 0), (CHR ''B'', 1), (CHR ''C'', 2), (CHR ''D'', 3), (CHR ''E'', 4),
      (CHR ''F'', 5), (CHR ''G'', 6), (CHR ''H'', 7), (CHR ''I'', 8), (CHR ''J'', 9),
      (CHR ''K'', 10), (CHR ''L'', 11), (CHR ''M'', 12), (CHR ''N'', 13), (CHR ''O'', 14),
      (CHR ''P'', 15), (CHR ''Q'', 16), (CHR ''R'', 17), (CHR ''S'', 18), (CHR ''T'', 19),
      (CHR ''U'', 20), (CHR ''V'', 21), (CHR ''W'', 22), (CHR ''X'', 23), (CHR ''Y'', 24),
      (CHR ''Z'', 25), (CHR ''2'', 26), (CHR ''3'', 27), (CHR ''4'', 28), (CHR ''5'', 29),
      (CHR ''6'', 30), (CHR ''7'', 31)]"

text \<open>\<^verbatim>\<open>base32.replace(/=+$/, '')\<close>: the run of \<open>=\<close> that ends the string is removed.\<close>

definition removeTrailingEquals :: "string \<Rightarrow> string" where
  "removeTrailingEquals base32 = rev (dropWhile (\<lambda>c. c = CHR ''='') (rev base32))"

text \<open>
  The first loop. \<^verbatim>\<open>if (!val) throw\<close> fires when the lookup gives \<^verbatim>\<open>undefined\<close> and
  also when it gives the number 0.
\<close>

fun decodeSymbols :: "string \<Rightarrow> string \<Rightarrow> error + string" where
  "decodeSymbols [] bits = Inr bits"
| "decodeSymbols (c # base32) bits =
     (case base32Lookup (toUpperCase c) of
        None \<Rightarrow> Inl InvalidBase32
      | Some val \<Rightarrow>
          if val = 0 then Inl InvalidBase32
          else decodeSymbols base32 (bits @ padStart 5 (CHR ''0'') (toStringRadix 2 val)))"

text \<open>The second loop: one number for every group of up to eight digits from position \<open>i\<close> on.\<close>

function groupBits :: "nat \<Rightarrow> string \<Rightarrow> nat option list \<Rightarrow> nat option list" where
  "groupBits i bits output =
     (if i < length bits
      then groupBits (i + 8) bits (output @ [parseInt2 (slice i (i + 8) bits)])
      else output)"
  by pat_completeness auto
termination
  by (relation "measure (\<lambda>(i, bits, output). length bits - i)") auto

declare groupBits.simps [simp del]

definition base32Decode :: "string \<Rightarrow> error + byte list" where
  "base32Decode base32 =
     (case decodeSymbols (removeTrailingEquals base32) [] of
        Inl e \<Rightarrow> Inl e
      | Inr bits \<Rightarrow> Inr (map toUint8 (groupBits 0 bits [])))"

section \<open>HMAC: \<^verbatim>\<open>generateHMAC\<close>\<close>

text \<open>
  HMAC-SHA1 is not part of the program: \<^verbatim>\<open>crypto.subtle.importKey\<close> followed by
  \<^verbatim>\<open>crypto.subtle.sign\<close> is a parameter \<open>H\<close> that takes the key and the message and
  returns the digest, or \<open>None\<close> when the platform rejects the call (it rejects the empty
  key, for one).
\<close>

type_synonym hmac_provider = "byte list \<Rightarrow> byte list \<Rightarrow> byte list option"

text \<open>\<^verbatim>\<open>a % b\<close> on integers with \<open>b > 0\<close>: the result has the sign of \<open>a\<close>.\<close>

definition js_rem :: "int \<Rightarrow> int \<Rightarrow> int" where
  "js_rem a b = (if a < 0 then - ((- a) mod b) else a mod b)"

text \<open>
  The loop \<^verbatim>\<open>for (let i = 7; i >= 0; i--)\<close>; \<open>fillCounter (Suc i)\<close> is the iteration at
  index \<open>i\<close>. The store into the \<^verbatim>\<open>Uint8Array\<close> is modulo 256 (\<^const>\<open>of_int\<close>), and
  \<^verbatim>\<open>Math.floor(counter / 256)\<close> is \<open>div\<close>.
\<close>

fun fillCounter :: "nat \<Rightarrow> int \<Rightarrow> byte list \<Rightarrow> byte list" where
  "fillCounter 0 counter counterArray = counterArray"
| "fillCounter (Suc i) counter counterArray =
     fillCounter i (counter div 256) (counterArray[i := of_int (js_rem counter 256)])"

definition counterBytes :: "int \<Rightarrow> byte list" where
  "counterBytes counter = fillCounter 8 counter (replicate 8 0)"

definition generateHMAC :: "hmac_provider \<Rightarrow> byte list \<Rightarrow> int \<Rightarrow> error + byte list" where
  "generateHMAC H key counter =
     (case H key (counterBytes counter) of
        None \<Rightarrow> Inl HmacFailure
      | Some hmac \<Rightarrow> Inr hmac)"

section \<open>TOTP: \<^verbatim>\<open>generateTOTP\<close> and \<^verbatim>\<open>verifyTOTP\<close>\<close>

definition TIME_STEP :: int where
  "TIME_STEP = 30"

text \<open>
  \<^verbatim>\<open>Math.floor(timestamp / (1000 * TIME_STEP))\<close> on an integer timestamp: the product is
  exact, the division is the binary64 division.
\<close>

definition counterOf :: "int \<Rightarrow> int" where
  "counterOf timestamp = floorDoubleDiv timestamp (nat (1000 * TIME_STEP))"

text \<open>
  \<^verbatim>\<open>hmac[i]\<close> in arithmetic: a position outside the array reads \<^verbatim>\<open>undefined\<close>, and every
  operation on it gives \<^verbatim>\<open>NaN\<close>.
\<close>

definition byteAt :: "byte list \<Rightarrow> nat \<Rightarrow> nat option" where
  "byteAt a i = (if i < length a then Some (unat (a ! i)) else None)"

text \<open>\<^verbatim>\<open>hmac[hmac.length - 1] % 16\<close>; the empty array has no position \<open>-1\<close>.\<close>

definition offsetOf :: "byte list \<Rightarrow> nat option" where
  "offsetOf hmac =
     (if hmac = [] then None
      else (case byteAt hmac (length hmac - 1) of None \<Rightarrow> None | Some b \<Rightarrow> Some (b mod 16)))"

definition binaryOf :: "byte list \<Rightarrow> nat option" where
  "binaryOf hmac =
     (case offsetOf hmac of
        None \<Rightarrow> None
      | Some offset \<Rightarrow>
          (case (byteAt hmac (offset + 0), byteAt hmac (offset + 1),
                 byteAt hmac (offset + 2), byteAt hmac (offset + 3)) of
             (Some b0, Some b1, Some b2, Some b3) \<Rightarrow>
               Some ((b0 mod 128) * 256 ^ 3 + (b1 mod 256) * 256 ^ 2
                     + (b2 mod 256) * 256 ^ 1 + (b3 mod 256) * 256 ^ 0)
           | _ \<Rightarrow> None))"

text \<open>\<^verbatim>\<open>binary % 1_00_00_00\<close>.\<close>

definition otpOf :: "nat option \<Rightarrow> nat option" where
  "otpOf binary = (case binary of None \<Rightarrow> None | Some b \<Rightarrow> Some (b mod 1000000))"

text \<open>\<^verbatim>\<open>otp.toString().padStart(6, '0')\<close>; \<^verbatim>\<open>NaN\<close> prints as the three letters.\<close>

definition otpString :: "nat option \<Rightarrow> string" where
  "otpString otp =
     padStart 6 (CHR ''0'') (case otp of None \<Rightarrow> ''NaN'' | Some n \<Rightarrow> toStringRadix 10 n)"

definition generateTOTP :: "hmac_provider \<Rightarrow> string \<Rightarrow> int \<Rightarrow> error + string" where
  "generateTOTP H secret timestamp =
     (let counter = counterOf timestamp
      in case base32Decode secret of
           Inl e \<Rightarrow> Inl e
         | Inr key \<Rightarrow>
             (case generateHMAC H key counter of
                Inl e \<Rightarrow> Inl e
              | Inr hmac \<Rightarrow> Inr (otpString (otpOf (binaryOf hmac)))))"

definition verifyTOTP :: "hmac_provider \<Rightarrow> string \<Rightarrow> string \<Rightarrow> int \<Rightarrow> error + bool" where
  "verifyTOTP H secret userToken timestamp =
     (case generateTOTP H secret timestamp of
        Inl e \<Rightarrow> Inl e
      | Inr generatedToken \<Rightarrow> Inr (generatedToken = userToken))"

section \<open>Notions used to state the properties\<close>

text \<open>A decimal digit, and the number that a string of decimal digits denotes.\<close>

definition isDigit :: "char \<Rightarrow> bool" where
  "isDigit c \<longleftrightarrow> 48 \<le> (of_char c :: nat) \<and> (of_char c :: nat) \<le> 57"

definition digitsValue :: "string \<Rightarrow> nat" where
  "digitsValue s = foldl (\<lambda>a c. 10 * a + ((of_char c :: nat) - 48)) 0 s"

text \<open>
  The number that a string of binary digits denotes, and the binary digits of a number
  padded to a width, as both Base32 loops write them.
\<close>

definition bitsValue :: "string \<Rightarrow> nat" where
  "bitsValue s = foldl (\<lambda>a c. 2 * a + (if c = CHR ''1'' then 1 else 0)) 0 s"

definition bitString :: "nat \<Rightarrow> nat \<Rightarrow> string" where
  "bitString k n = padStart k (CHR ''0'') (toStringRadix 2 n)"

text \<open>The number that a byte sequence denotes when byte 0 is the most significant.\<close>

definition bigEndianValue :: "byte list \<Rightarrow> int" where
  "bigEndianValue bs = foldl (\<lambda>a b. 256 * a + uint b) 0 bs"

text \<open>
  A digest to run the pipeline on: the HMAC-SHA1 value of the worked example in
  RFC 4226, section 5.4, and the provider that returns it for every non-empty key.
\<close>

definition rfc4226_digest :: "byte list" where
  "rfc4226_digest =
     [0x1f, 0x86, 0x98, 0x69, 0x0e, 0x02, 0xca, 0x16, 0x61, 0x85,
      0x50, 0xef, 0x7f, 0x19, 0xda, 0x8e, 0x94, 0x5b, 0x55, 0x5a]"

definition fixedHmac :: hmac_provider where
  "fixedHmac key message = (if key = [] then None else Some rfc4226_digest)"

text \<open>
  A provider whose digest depends on the message: the eight bytes of the message in
  reverse order, then twelve zero bytes.
\<close>

definition echoHmac :: hmac_provider where
  "echoHmac key message = (if key = [] then None else Some (rev message @ replicate 12 0))"

section \<open>Bytes\<close>

lemma unat_byte_lt: "unat (w :: byte) < 256"
  using unsigned_less [of w, where 'a = nat] by simp

lemma replicate_numeral: "replicate (numeral k) x = x # replicate (pred_numeral k) x"
  by (simp add: numeral_eq_Suc)

section \<open>Decimal rendering\<close>

lemma digit_cases: "d < 10 \<Longrightarrow> d \<in> {0, 1, 2, 3, 4, 5, 6, 7, 8, 9::nat}"
  by auto

lemma of_char_digitChar: "d < 10 \<Longrightarrow> (of_char (digitChar d) :: nat) = 48 + d"
  using digit_cases [of d] by (auto simp: digitChar_def)

lemma isDigit_digitChar: "d < 10 \<Longrightarrow> isDigit (digitChar d)"
  by (simp add: isDigit_def of_char_digitChar)

lemma toStringRadix_10_digits: "\<forall>c \<in> set (toStringRadix 10 n). isDigit c"
proof (induction n rule: less_induct)
  case (less n)
  show ?case
  proof (cases "n < 10")
    case True
    then show ?thesis by (simp add: toStringRadix.simps [of 10 n] isDigit_digitChar)
  next
    case False
    then have "n div 10 < n" by simp
    from less.IH [OF this] False show ?thesis
      by (simp add: toStringRadix.simps [of 10 n] isDigit_digitChar)
  qed
qed

lemma toStringRadix_10_length:
  "0 < k \<Longrightarrow> n < 10 ^ k \<Longrightarrow> length (toStringRadix 10 n) \<le> k"
proof (induction k arbitrary: n)
  case 0
  then show ?case by simp
next
  case (Suc k)
  show ?case
  proof (cases "n < 10")
    case True
    then show ?thesis by (simp add: toStringRadix.simps [of 10 n])
  next
    case False
    with Suc.prems have k: "0 < k" by (cases k) auto
    from Suc.prems have "n div 10 < 10 ^ k"
      by (simp add: less_mult_imp_div_less mult.commute)
    from Suc.IH [OF k this] False show ?thesis
      by (simp add: toStringRadix.simps [of 10 n])
  qed
qed

lemma digitsValue_snoc:
  "digitsValue (s @ [c]) = 10 * digitsValue s + ((of_char c :: nat) - 48)"
  by (simp add: digitsValue_def)

lemma digitsValue_toStringRadix: "digitsValue (toStringRadix 10 n) = n"
proof (induction n rule: less_induct)
  case (less n)
  show ?case
  proof (cases "n < 10")
    case True
    then show ?thesis
      by (simp add: toStringRadix.simps [of 10 n] digitsValue_def of_char_digitChar)
  next
    case False
    then have "n div 10 < n" by simp
    from less.IH [OF this] False show ?thesis
      by (simp add: toStringRadix.simps [of 10 n] digitsValue_snoc of_char_digitChar)
  qed
qed

lemma digitsValue_zeros: "digitsValue (replicate k (CHR ''0'') @ s) = digitsValue s"
  by (induction k) (simp_all add: digitsValue_def)

lemma otpString_length: "length (otpString (otpOf binary)) = 6"
proof (cases binary)
  case None
  then show ?thesis by (simp add: otpString_def otpOf_def padStart_def)
next
  case (Some b)
  have "length (toStringRadix 10 (b mod 1000000)) \<le> 6"
    by (rule toStringRadix_10_length) simp_all
  with Some show ?thesis by (simp add: otpString_def otpOf_def padStart_def)
qed

section \<open>The pipeline of \<^verbatim>\<open>generateTOTP\<close>\<close>

lemma generateTOTP_Inr:
  "generateTOTP H secret timestamp = Inr code \<Longrightarrow>
   \<exists>key hmac. base32Decode secret = Inr key
     \<and> H key (counterBytes (counterOf timestamp)) = Some hmac
     \<and> code = otpString (otpOf (binaryOf hmac))"
  by (auto simp: generateTOTP_def generateHMAC_def Let_def split: sum.splits option.splits)

lemma generateTOTP_length: "generateTOTP H secret timestamp = Inr code \<Longrightarrow> length code = 6"
  by (auto dest!: generateTOTP_Inr simp: otpString_length)

text \<open>The pipeline at the secret of the README and the digest of RFC 4226.\<close>

lemma base32Decode_sample:
  "base32Decode ''JBSWY3DPEHPK3PXP'' = Inr [72, 101, 108, 108, 111, 33, 222, 173, 190, 239]"
  by code_simp

lemma binaryOf_sample: "binaryOf rfc4226_digest = Some 1357872921"
  by (simp add: rfc4226_digest_def binaryOf_def offsetOf_def byteAt_def)

lemma otpString_sample: "otpString (otpOf (Some 1357872921)) = ''872921''"
  by (simp add: otpString_def otpOf_def padStart_def toStringRadix.simps digitChar_def)

lemma generateTOTP_sample:
  "generateTOTP fixedHmac ''JBSWY3DPEHPK3PXP'' timestamp = Inr ''872921''"
  by (simp add: generateTOTP_def generateHMAC_def fixedHmac_def base32Decode_sample
      binaryOf_sample otpString_sample Let_def)

lemma fixedHmac_sample:
  "fixedHmac [72, 101, 108, 108, 111, 33, 222, 173, 190, 239] message = Some rfc4226_digest"
  by (simp add: fixedHmac_def)

lemma rfc4226_digest_length: "length rfc4226_digest = 20"
  by (simp add: rfc4226_digest_def)

lemma fixedHmac_length: "fixedHmac key message = Some hmac \<Longrightarrow> length hmac = 20"
  by (auto simp: fixedHmac_def rfc4226_digest_length split: if_splits)

lemma offsetOf_sample: "offsetOf rfc4226_digest = Some 10"
  by (simp add: rfc4226_digest_def offsetOf_def byteAt_def)

section \<open>Base32 decoding\<close>

text \<open>
  Claim C1 says that decoding fails exactly on a character outside the alphabet and that an
  input with the symbol \<open>A\<close> decodes, \<open>A\<close> being the 5-bit value 0. The lookup table
  does map \<open>A\<close> to 0, yet \<^verbatim>\<open>if (!val) throw\<close> takes that 0 for a failed lookup:
  \<open>AAAAAAAA\<close>, the Base32 text of five zero bytes, is rejected.
\<close>

theorem base32Decode_rejects_zero_symbol:
  "base32Lookup (toUpperCase (CHR ''A'')) = Some 0
   \<and> list_all (\<lambda>c. c \<in> set alphabet) ''AAAAAAAA''
   \<and> base32Decode ''AAAAAAAA'' = Inl InvalidBase32"
  by code_simp

text \<open>
  Claim C2 says that a final group of fewer than eight bits is dropped. The second loop of
  \<^verbatim>\<open>base32Decode\<close> parses that group like the others and appends its value: the text
  \<open>MFRGG===\<close>, which \<^verbatim>\<open>stringToBase32\<close> gives for \<open>abc\<close>, decodes to four bytes,
  the three of \<open>abc\<close> and a byte 0 made from the one bit left over.
\<close>

theorem base32Decode_keeps_partial_group:
  "stringToBase32 ''abc'' = ''MFRGG===''
   \<and> TextEncoder_encode ''abc'' = [97, 98, 99]
   \<and> base32Decode ''MFRGG==='' = Inr [97, 98, 99, 0]"
  by code_simp

text \<open>
  Claim C3 says that decoding the encoding of a byte sequence whose length is a multiple
  of 5 gives the sequence back. The five bytes of the text \<open>00000\<close> are encoded as
  \<open>GAYDAMBQ\<close>, and decoding that text throws, because it contains the symbol \<open>A\<close>.
\<close>

theorem base32_round_trip_fails:
  "TextEncoder_encode ''00000'' = [48, 48, 48, 48, 48]
   \<and> stringToBase32 ''00000'' = ''GAYDAMBQ''
   \<and> base32Decode (stringToBase32 ''00000'') = Inl InvalidBase32"
  by code_simp

text \<open>A character that the lookup does not accept makes the first loop throw.\<close>

lemma decodeSymbols_invalid:
  assumes "c \<in> set base32"
    and "base32Lookup (toUpperCase c) = None \<or> base32Lookup (toUpperCase c) = Some 0"
  shows "decodeSymbols base32 bits = Inl InvalidBase32"
  using assms
proof (induction base32 arbitrary: bits)
  case Nil
  then show ?case by simp
next
  case (Cons x xs)
  show ?case
  proof (cases "x = c")
    case True
    with Cons.prems(2) show ?thesis by auto
  next
    case False
    with Cons.prems have "c \<in> set xs" by simp
    from Cons.IH [OF this Cons.prems(2)] show ?thesis
      by (simp split: option.splits)
  qed
qed

text \<open>
  What the first loop accepts: the characters whose upper-case form is in the alphabet and
  is not \<open>A\<close>. Every other character before the trailing run of \<open>=\<close> makes
  \<^verbatim>\<open>base32Decode\<close> throw, and nothing else does.
\<close>

lemma base32Lookup_None_iff: "base32Lookup c = None \<longleftrightarrow> c \<notin> set alphabet"
  by (simp add: base32Lookup_def alphabet_def)

lemma base32Lookup_zero_iff: "base32Lookup c = Some 0 \<longleftrightarrow> c = CHR ''A''"
  by (simp add: base32Lookup_def)

lemma decodeSymbols_error: "decodeSymbols base32 bits = Inl e \<Longrightarrow> e = InvalidBase32"
  by (induction base32 arbitrary: bits) (auto split: option.splits if_splits)

lemma decodeSymbols_valid:
  assumes "\<forall>c \<in> set base32. base32Lookup (toUpperCase c) \<noteq> None \<and> base32Lookup (toUpperCase c) \<noteq> Some 0"
  shows "\<exists>bits'. decodeSymbols base32 bits = Inr bits'"
  using assms by (induction base32 arbitrary: bits) (auto split: option.splits)

lemma base32Decode_fails_iff:
  "base32Decode base32 = Inl InvalidBase32 \<longleftrightarrow>
     (\<exists>c \<in> set (removeTrailingEquals base32).
        toUpperCase c \<notin> set alphabet \<or> toUpperCase c = CHR ''A'')"
proof
  assume "base32Decode base32 = Inl InvalidBase32"
  then have "\<not> (\<exists>bits'. decodeSymbols (removeTrailingEquals base32) [] = Inr bits')"
    by (auto simp: base32Decode_def)
  with decodeSymbols_valid [of "removeTrailingEquals base32" "[]"]
  show "\<exists>c \<in> set (removeTrailingEquals base32).
        toUpperCase c \<notin> set alphabet \<or> toUpperCase c = CHR ''A''"
    by (auto simp: base32Lookup_None_iff base32Lookup_zero_iff)
next
  assume "\<exists>c \<in> set (removeTrailingEquals base32).
        toUpperCase c \<notin> set alphabet \<or> toUpperCase c = CHR ''A''"
  then obtain c where "c \<in> set (removeTrailingEquals base32)"
    and "base32Lookup (toUpperCase c) = None \<or> base32Lookup (toUpperCase c) = Some 0"
    by (auto simp: base32Lookup_None_iff base32Lookup_zero_iff)
  then have "decodeSymbols (removeTrailingEquals base32) [] = Inl InvalidBase32"
    by (rule decodeSymbols_invalid)
  then show "base32Decode base32 = Inl InvalidBase32"
    by (simp add: base32Decode_def)
qed

lemma dropWhile_stops:
  "\<not> P c \<Longrightarrow> \<exists>pre. dropWhile P (xs @ c # ys) = pre @ c # ys"
  by (induction xs) auto

text \<open>Whatever stands before a character other than \<open>=\<close> survives the removal.\<close>

lemma removeTrailingEquals_keeps:
  assumes "i < j" and "j < length s" and "s ! j \<noteq> CHR ''=''"
  shows "s ! i \<in> set (removeTrailingEquals s)"
proof -
  have s: "s = take j s @ s ! j # drop (Suc j) s"
    using assms(2) by (rule id_take_nth_drop)
  have "rev s = rev (drop (Suc j) s) @ s ! j # rev (take j s)"
    by (subst s) simp
  with dropWhile_stops [of "\<lambda>c. c = CHR ''=''" "s ! j" "rev (drop (Suc j) s)" "rev (take j s)"]
    assms(3)
  obtain pre where "dropWhile (\<lambda>c. c = CHR ''='') (rev s) = pre @ s ! j # rev (take j s)"
    by auto
  then have "set (take j s) \<subseteq> set (removeTrailingEquals s)"
    by (auto simp: removeTrailingEquals_def)
  moreover have "s ! i \<in> set (take j s)"
    using assms(1,2) by (metis length_take min.absorb2 nth_mem nth_take less_imp_le_nat)
  ultimately show ?thesis by blast
qed

lemma lookup_equals_sign: "base32Lookup (toUpperCase (CHR ''='')) = None"
  by (simp add: base32Lookup_def toUpperCase_def)

text \<open>
  Claim C9. An input in which a \<open>=\<close> stands before a character other than \<open>=\<close> makes
  \<^verbatim>\<open>base32Decode\<close> throw the invalid-encoding error.
\<close>

theorem base32Decode_inner_padding:
  assumes "i < j" and "j < length base32"
    and "base32 ! i = CHR ''=''" and "base32 ! j \<noteq> CHR ''=''"
  shows "base32Decode base32 = Inl InvalidBase32"
proof -
  have "CHR ''='' \<in> set (removeTrailingEquals base32)"
    using removeTrailingEquals_keeps [OF assms(1,2,4)] assms(3) by simp
  then have "decodeSymbols (removeTrailingEquals base32) [] = Inl InvalidBase32"
    using lookup_equals_sign by (rule decodeSymbols_invalid [OF _ disjI1])
  then show ?thesis by (simp add: base32Decode_def)
qed

theorem base32Decode_inner_padding_witness:
  "(1::nat) < 2 \<and> 2 < length ''M=E='' \<and> ''M=E='' ! 1 = CHR ''='' \<and> ''M=E='' ! 2 \<noteq> CHR ''=''
   \<and> base32Decode ''M=E='' = Inl InvalidBase32"
  using base32Decode_inner_padding [of 1 2 "''M=E=''"] by simp

text \<open>
  The number of bytes that \<^verbatim>\<open>base32Decode\<close> returns for \<open>n\<close> symbols is \<open>5 * n / 8\<close>
  rounded up, not down: bits left over after the last full group always make one more byte.
\<close>

lemma toStringRadix_2_length:
  "0 < k \<Longrightarrow> n < 2 ^ k \<Longrightarrow> length (toStringRadix 2 n) \<le> k"
proof (induction k arbitrary: n)
  case 0
  then show ?case by simp
next
  case (Suc k)
  show ?case
  proof (cases "n < 2")
    case True
    then show ?thesis by (simp add: toStringRadix.simps [of 2 n])
  next
    case False
    with Suc.prems have k: "0 < k" by (cases k) auto
    from Suc.prems have "n div 2 < 2 ^ k"
      by (simp add: less_mult_imp_div_less mult.commute)
    from Suc.IH [OF k this] False show ?thesis
      by (simp add: toStringRadix.simps [of 2 n])
  qed
qed

lemma base32Lookup_bound: "base32Lookup c = Some val \<Longrightarrow> val < 32"
  by (auto simp: base32Lookup_def split: if_splits)

lemma symbol_bits_length:
  assumes "base32Lookup c = Some val"
  shows "length (padStart 5 (CHR ''0'') (toStringRadix 2 val)) = 5"
proof -
  have "length (toStringRadix 2 val) \<le> 5"
    using base32Lookup_bound [OF assms] by (intro toStringRadix_2_length) simp_all
  then show ?thesis by (simp add: padStart_def)
qed

lemma decodeSymbols_length:
  "decodeSymbols base32 bits = Inr bits' \<Longrightarrow> length bits' = length bits + 5 * length base32"
proof (induction base32 arbitrary: bits)
  case Nil
  then show ?case by simp
next
  case (Cons c cs)
  from Cons.prems obtain val where val: "base32Lookup (toUpperCase c) = Some val"
    and rest: "decodeSymbols cs (bits @ padStart 5 (CHR ''0'') (toStringRadix 2 val)) = Inr bits'"
    by (auto split: option.splits if_splits)
  from Cons.IH [OF rest] symbol_bits_length [OF val] show ?case by simp
qed

lemma groupBits_length:
  "length (groupBits i bits acc) = length acc + (length bits - i + 7) div 8"
proof (induction i bits acc rule: groupBits.induct)
  case (1 i bits acc)
  show ?case
  proof (cases "i < length bits")
    case True
    then have "(length bits - i + 7) div 8 = Suc ((length bits - (i + 8) + 7) div 8)"
      by (cases "i + 8 \<le> length bits") (simp_all add: div_eq_0_iff le_div_geq)
    with True "1.IH" show ?thesis
      by (simp add: groupBits.simps [of i bits acc])
  next
    case False
    then show ?thesis by (simp add: groupBits.simps [of i bits acc])
  qed
qed

lemma base32Decode_length:
  assumes "base32Decode base32 = Inr bytes"
  shows "length bytes = (5 * length (removeTrailingEquals base32) + 7) div 8"
proof -
  from assms obtain bits where bits: "decodeSymbols (removeTrailingEquals base32) [] = Inr bits"
    and bytes: "bytes = map toUint8 (groupBits 0 bits [])"
    by (auto simp: base32Decode_def split: sum.splits)
  from decodeSymbols_length [OF bits] bytes show ?thesis
    by (simp add: groupBits_length)
qed

section \<open>Base32 round trip away from the symbol \<open>A\<close>\<close>

text \<open>Binary digits: printing and parsing are inverse to each other at a fixed width.\<close>

lemma digitChar_bit: "d < 2 \<Longrightarrow> digitChar d = (if d = 1 then CHR ''1'' else CHR ''0'')"
  by (cases d) (auto simp: digitChar_def)

lemma bit_of_digitChar: "d < 2 \<Longrightarrow> (if digitChar d = CHR ''1'' then 1 else 0) = d"
  by (cases d) (auto simp: digitChar_def)

lemma bitsValue_snoc: "bitsValue (s @ [c]) = 2 * bitsValue s + (if c = CHR ''1'' then 1 else 0)"
  by (simp add: bitsValue_def)

lemma toStringRadix_2_bits: "list_all isBit (toStringRadix 2 n)"
proof (induction n rule: less_induct)
  case (less n)
  show ?case
  proof (cases "n < 2")
    case True
    then show ?thesis by (simp add: toStringRadix.simps [of 2 n] digitChar_bit isBit_def)
  next
    case False
    then have "n div 2 < n" by simp
    from less.IH [OF this] False show ?thesis
      by (simp add: toStringRadix.simps [of 2 n] digitChar_bit isBit_def)
  qed
qed

lemma bitsValue_toStringRadix: "bitsValue (toStringRadix 2 n) = n"
proof (induction n rule: less_induct)
  case (less n)
  show ?case
  proof (cases "n < 2")
    case True
    then show ?thesis
      by (simp add: toStringRadix.simps [of 2 n] bitsValue_def bit_of_digitChar)
  next
    case False
    then have "n div 2 < n" by simp
    from less.IH [OF this] False show ?thesis
      by (simp add: toStringRadix.simps [of 2 n] bitsValue_snoc bit_of_digitChar)
  qed
qed

lemma bitsValue_zeros: "bitsValue (replicate k (CHR ''0'') @ s) = bitsValue s"
  by (induction k) (simp_all add: bitsValue_def)

lemma toStringRadix_nonempty: "toStringRadix r n \<noteq> []"
  by (simp add: toStringRadix.simps [of r n])

lemma bitString_bits: "list_all isBit (bitString k n)"
proof -
  have "isBit (CHR ''0'')"
    by (simp add: isBit_def)
  then have "list_all isBit (replicate j (CHR ''0''))" for j
    by (induction j) simp_all
  then show ?thesis
    by (simp add: bitString_def padStart_def toStringRadix_2_bits)
qed

lemma bitString_value: "bitsValue (bitString k n) = n"
  by (simp add: bitString_def padStart_def bitsValue_zeros bitsValue_toStringRadix)

lemma bitString_length:
  assumes "0 < k" and "n < 2 ^ k"
  shows "length (bitString k n) = k"
proof -
  have "length (toStringRadix 2 n) \<le> k"
    using assms by (rule toStringRadix_2_length)
  then show ?thesis by (simp add: bitString_def padStart_def)
qed

lemma parseInt2_bits:
  assumes "list_all isBit s" and "s \<noteq> []"
  shows "parseInt2 s = Some (bitsValue s)"
proof -
  from assms(1) have tw: "takeWhile isBit s = s"
    by (simp add: list_all_iff)
  show ?thesis
    unfolding parseInt2_def bitsValue_def Let_def tw using assms(2) by simp
qed

lemma bitsValue_bound: "bitsValue s < 2 ^ length s"
proof (induction s rule: rev_induct)
  case Nil
  then show ?case by (simp add: bitsValue_def)
next
  case (snoc c s)
  then show ?case by (simp add: bitsValue_snoc)
qed

lemma bitsValue_inj:
  assumes "length s = length t" and "list_all isBit s" and "list_all isBit t"
    and "bitsValue s = bitsValue t"
  shows "s = t"
  using assms
proof (induction s arbitrary: t rule: rev_induct)
  case Nil
  then show ?case by simp
next
  case (snoc c s)
  from snoc.prems(1) obtain d t' where t: "t = t' @ [d]"
    by (cases t rule: rev_cases) auto
  from snoc.prems(2,3) t have bits: "isBit c" "isBit d" "list_all isBit s" "list_all isBit t'"
    by simp_all
  from snoc.prems(4) t
  have eq: "2 * bitsValue s + (if c = CHR ''1'' then 1 else 0)
          = 2 * bitsValue t' + (if d = CHR ''1'' then 1 else (0::nat))"
    by (simp add: bitsValue_snoc)
  define bc bd :: nat where "bc = (if c = CHR ''1'' then 1 else 0)"
    and "bd = (if d = CHR ''1'' then 1 else 0)"
  have "bc \<le> 1" and "bd \<le> 1"
    by (simp_all add: bc_def bd_def)
  from eq have eq': "2 * bitsValue s + bc = 2 * bitsValue t' + bd"
    by (simp only: bc_def bd_def)
  then have "(2 * bitsValue s + bc) mod 2 = (2 * bitsValue t' + bd) mod 2"
    by simp
  with \<open>bc \<le> 1\<close> \<open>bd \<le> 1\<close> have b: "bc = bd"
    by simp
  with eq' have v: "bitsValue s = bitsValue t'"
    by simp
  from b bits(1,2) have "c = d"
    by (auto simp: isBit_def bc_def bd_def split: if_splits)
  note this v
  then have "c = d" and "bitsValue s = bitsValue t'"
    by simp_all
  with snoc.IH [of t'] snoc.prems(1) bits t show ?case by simp
qed

lemma bitString_bitsValue:
  assumes "list_all isBit g" and "g \<noteq> []"
  shows "bitString (length g) (bitsValue g) = g"
proof (rule bitsValue_inj)
  show "length (bitString (length g) (bitsValue g)) = length g"
    using assms(2) by (intro bitString_length bitsValue_bound) simp
  show "list_all isBit (bitString (length g) (bitsValue g))"
    by (rule bitString_bits)
  show "list_all isBit g"
    by (rule assms(1))
  show "bitsValue (bitString (length g) (bitsValue g)) = bitsValue g"
    by (rule bitString_value)
qed

text \<open>The loops of both functions on a bit string that is cut into full groups.\<close>

lemma bytesToBits_concat:
  "bytesToBits byteArray bits = bits @ concat (map (\<lambda>b. bitString 8 (unat b)) byteArray)"
  by (induction byteArray arbitrary: bits) (simp_all add: bitString_def)

lemma encodeGroups_concat:
  assumes "\<forall>g \<in> set gs. length g = 5"
  shows "encodeGroups (length pre) (pre @ concat gs) acc
       = acc @ concat (map (\<lambda>g. alphabetAt (parseInt2 g)) gs)"
  using assms
proof (induction gs arbitrary: pre acc)
  case Nil
  then show ?case by (simp add: encodeGroups.simps [of "length pre"])
next
  case (Cons g gs)
  then have len: "length g = 5" and rest: "\<forall>g \<in> set gs. length g = 5"
    by simp_all
  have sl: "padEnd 5 (CHR ''0'') (slice (length pre) (length pre + 5) (pre @ concat (g # gs))) = g"
    using len by (simp add: slice_def padEnd_def)
  have "encodeGroups (length pre) (pre @ concat (g # gs)) acc
      = encodeGroups (length (pre @ g)) ((pre @ g) @ concat gs) (acc @ alphabetAt (parseInt2 g))"
    using len sl by (subst encodeGroups.simps) simp
  also have "\<dots> = (acc @ alphabetAt (parseInt2 g)) @ concat (map (\<lambda>g. alphabetAt (parseInt2 g)) gs)"
    by (rule Cons.IH [OF rest])
  finally show ?case by simp
qed

lemma groupBits_concat:
  assumes "\<forall>h \<in> set hs. length h = 8"
  shows "groupBits (length pre) (pre @ concat hs) acc = acc @ map parseInt2 hs"
  using assms
proof (induction hs arbitrary: pre acc)
  case Nil
  then show ?case by (simp add: groupBits.simps [of "length pre"])
next
  case (Cons h hs)
  then have len: "length h = 8" and rest: "\<forall>h \<in> set hs. length h = 8"
    by simp_all
  have sl: "slice (length pre) (length pre + 8) (pre @ concat (h # hs)) = h"
    using len by (simp add: slice_def)
  have "groupBits (length pre) (pre @ concat (h # hs)) acc
      = groupBits (length (pre @ h)) ((pre @ h) @ concat hs) (acc @ [parseInt2 h])"
    using len sl by (subst groupBits.simps) simp
  also have "\<dots> = (acc @ [parseInt2 h]) @ map parseInt2 hs"
    by (rule Cons.IH [OF rest])
  finally show ?case by simp
qed

lemma lookup_alphabet:
  assumes "v < 32"
  shows "base32Lookup (toUpperCase (alphabet ! v)) = Some v"
proof -
  have "list_all (\<lambda>v. base32Lookup (toUpperCase (alphabet ! v)) = Some v) [0..<32]"
    by code_simp
  with assms show ?thesis by (simp add: list_all_iff)
qed

lemma alphabet_not_equals_sign:
  assumes "v < 32"
  shows "alphabet ! v \<noteq> CHR ''=''"
proof -
  have "list_all (\<lambda>v. alphabet ! v \<noteq> CHR ''='') [0..<32]"
    by code_simp
  with assms show ?thesis by (simp add: list_all_iff)
qed

lemma alphabet_A:
  assumes "v < 32"
  shows "alphabet ! v = CHR ''A'' \<longleftrightarrow> v = 0"
proof -
  have "list_all (\<lambda>v. alphabet ! v = CHR ''A'' \<longleftrightarrow> v = 0) [0..<32]"
    by code_simp
  with assms show ?thesis by (simp add: list_all_iff)
qed

lemma decodeSymbols_symbols:
  assumes "\<forall>v \<in> set vs. 0 < v \<and> v < 32"
  shows "decodeSymbols (map (\<lambda>v. alphabet ! v) vs) bits
       = Inr (bits @ concat (map (bitString 5) vs))"
  using assms
  by (induction vs arbitrary: bits) (simp_all add: lookup_alphabet bitString_def)

lemma groups_of_5:
  "length bits mod 5 = 0 \<Longrightarrow> \<exists>gs. concat gs = bits \<and> (\<forall>g \<in> set gs. length g = 5)"
proof (induction "length bits" arbitrary: bits rule: less_induct)
  case less
  show ?case
  proof (cases "bits = []")
    case True
    then show ?thesis by (intro exI [of _ "[]"]) simp
  next
    case False
    with less.prems have ge: "5 \<le> length bits"
      by (cases "length bits < 5") auto
    then have "(length bits - 5) mod 5 = length bits mod 5"
      by (simp add: le_mod_geq)
    with ge less.prems
    have "length (drop 5 bits) < length bits" and "length (drop 5 bits) mod 5 = 0"
      by simp_all
    from less.hyps [OF this] obtain gs
      where gs: "concat gs = drop 5 bits" "\<forall>g \<in> set gs. length g = 5"
      by blast
    with ge show ?thesis
      by (intro exI [of _ "take 5 bits # gs"]) simp
  qed
qed

lemma removeTrailingEquals_id:
  assumes "CHR ''='' \<notin> set s"
  shows "removeTrailingEquals s = s"
proof -
  from assms have "dropWhile (\<lambda>c. c = CHR ''='') (rev s) = rev s"
    by (cases "rev s") (auto simp: in_set_conv_decomp)
  then show ?thesis by (simp add: removeTrailingEquals_def)
qed

text \<open>
  When the number of bytes is a multiple of 5 and no 5-bit group is 0, so that the encoded
  text has no \<open>A\<close>, decoding returns the bytes: the rejected zero symbol is the only
  obstacle to the round trip.
\<close>

lemma length_concat_groups:
  "\<forall>g \<in> set gs. length g = k \<Longrightarrow> length (concat gs) = k * length gs"
  by (induction gs) simp_all

lemma concat_singletons:
  "\<forall>g \<in> set gs. f g = [h g] \<Longrightarrow> concat (map f gs) = map h gs"
  by (induction gs) simp_all

lemma byte_bits_round_trip: "toUint8 (parseInt2 (bitString 8 (unat b))) = b"
proof -
  have "length (bitString 8 (unat b)) = 8"
    by (rule bitString_length) (simp_all add: unat_byte_lt)
  then have "bitString 8 (unat b) \<noteq> []"
    by auto
  then have "parseInt2 (bitString 8 (unat b)) = Some (unat b)"
    by (simp add: parseInt2_bits bitString_bits bitString_value)
  then show ?thesis by (simp add: toUint8_def)
qed

lemma encode_decode_without_A:
  assumes len: "length byteArray mod 5 = 0"
    and noA: "CHR ''A'' \<notin> set (encodeBytes byteArray)"
  shows "base32Decode (encodeBytes byteArray) = Inr byteArray"
proof -
  define hs where "hs = map (\<lambda>b. bitString 8 (unat b)) byteArray"
  define B where "B = concat hs"
  have hs8: "\<forall>h \<in> set hs. length h = 8"
    by (auto simp: hs_def unat_byte_lt intro!: bitString_length)
  have B: "bytesToBits byteArray [] = B"
    by (simp add: bytesToBits_concat B_def hs_def)
  have lenB: "length B = 8 * length byteArray"
    using length_concat_groups [OF hs8] by (simp add: B_def hs_def)
  have bitsB: "\<forall>c \<in> set B. isBit c"
    using bitString_bits by (auto simp: B_def hs_def list_all_iff)
  from len have "length B mod 5 = 0"
    unfolding lenB by presburger
  from groups_of_5 [OF this] obtain gs
    where gs: "concat gs = B" and gs5: "\<forall>g \<in> set gs. length g = 5"
    by blast
  have gbits: "list_all isBit g" if "g \<in> set gs" for g
    using that bitsB gs by (auto simp: list_all_iff)
  have gne: "g \<noteq> []" if "g \<in> set gs" for g
    using that gs5 by auto
  have gval: "bitsValue g < 32" if "g \<in> set gs" for g
    using bitsValue_bound [of g] gs5 that by simp
  define vs where "vs = map bitsValue gs"
  define E where "E = map (\<lambda>v. alphabet ! v) vs"
  have sym: "alphabetAt (parseInt2 g) = [alphabet ! bitsValue g]" if "g \<in> set gs" for g
    using gval [OF that] by (simp add: parseInt2_bits gbits gne that alphabetAt_def alphabet_def)
  have "encodeGroups (length ([] :: string)) ([] @ concat gs) []
      = [] @ concat (map (\<lambda>g. alphabetAt (parseInt2 g)) gs)"
    using gs5 by (rule encodeGroups_concat)
  also have "concat (map (\<lambda>g. alphabetAt (parseInt2 g)) gs) = E"
    using concat_singletons [of gs "\<lambda>g. alphabetAt (parseInt2 g)" "\<lambda>g. alphabet ! bitsValue g"] sym
    by (simp add: E_def vs_def comp_def)
  finally have enc: "encodeGroups 0 B [] = E"
    by (simp add: gs)
  have "5 * length gs = 8 * length byteArray"
    using length_concat_groups [OF gs5] lenB gs by simp
  then have "length E mod 8 = 0"
    unfolding E_def vs_def length_map by presburger
  then have pad: "padOutput E = E"
    by (simp add: padOutput.simps [of E])
  have E: "encodeBytes byteArray = E"
    by (simp add: encodeBytes_def B enc pad)
  have vs32: "\<forall>v \<in> set vs. v < 32"
    using gval by (auto simp: vs_def)
  have vs0: "\<forall>v \<in> set vs. 0 < v \<and> v < 32"
  proof
    fix v assume v: "v \<in> set vs"
    with vs32 have "v < 32" by blast
    moreover from v have "alphabet ! v \<in> set E"
      by (simp add: E_def)
    with noA have "alphabet ! v \<noteq> CHR ''A''"
      unfolding E by metis
    ultimately show "0 < v \<and> v < 32"
      by (simp add: alphabet_A)
  qed
  have "CHR ''='' \<notin> set E"
  proof
    assume "CHR ''='' \<in> set E"
    then obtain v where "v \<in> set vs" and "alphabet ! v = CHR ''=''"
      by (auto simp: E_def)
    with vs32 alphabet_not_equals_sign [of v] show False
      by blast
  qed
  then have strip: "removeTrailingEquals E = E"
    by (rule removeTrailingEquals_id)
  have "concat (map (bitString 5) vs) = concat gs"
  proof -
    have "bitString 5 (bitsValue g) = g" if "g \<in> set gs" for g
      using bitString_bitsValue [OF gbits [OF that] gne [OF that]] gs5 that by simp
    then have "map (bitString 5) vs = gs"
      by (simp add: vs_def map_idI)
    then show ?thesis by simp
  qed
  with decodeSymbols_symbols [OF vs0, of "[]"]
  have dec: "decodeSymbols E [] = Inr B"
    by (simp add: E_def gs)
  have "groupBits (length ([] :: string)) ([] @ concat hs) [] = [] @ map parseInt2 hs"
    using hs8 by (rule groupBits_concat)
  then have grp: "groupBits 0 B [] = map parseInt2 hs"
    by (simp add: B_def)
  have "map toUint8 (map parseInt2 hs) = byteArray"
    by (simp add: hs_def byte_bits_round_trip map_idI)
  with dec grp strip show ?thesis
    by (simp add: E base32Decode_def)
qed

lemma encode_decode_sample:
  "encodeBytes [72, 101, 108, 108, 111] = ''JBSWY3DP''
   \<and> base32Decode ''JBSWY3DP'' = Inr [72, 101, 108, 108, 111]"
  by code_simp

section \<open>The counter and its eight bytes\<close>

text \<open>The byte stored for \<^verbatim>\<open>counter % 256\<close> is the low byte of the counter, whatever its sign.\<close>

lemma of_int_js_rem: "(of_int (js_rem counter 256) :: byte) = of_int counter"
proof -
  have "js_rem counter 256 mod 256 = counter mod 256"
    by (simp add: js_rem_def mod_minus_eq)
  then show ?thesis
    by (simp add: word_of_int_eq_iff take_bit_eq_mod)
qed

text \<open>The eight iterations of the loop, unfolded.\<close>

lemma fillCounter_8:
  "fillCounter 8 c [a0, a1, a2, a3, a4, a5, a6, a7] =
     [of_int (js_rem (c div 256 div 256 div 256 div 256 div 256 div 256 div 256) 256),
      of_int (js_rem (c div 256 div 256 div 256 div 256 div 256 div 256) 256),
      of_int (js_rem (c div 256 div 256 div 256 div 256 div 256) 256),
      of_int (js_rem (c div 256 div 256 div 256 div 256) 256),
      of_int (js_rem (c div 256 div 256 div 256) 256),
      of_int (js_rem (c div 256 div 256) 256),
      of_int (js_rem (c div 256) 256),
      of_int (js_rem c 256)]"
proof -
  have "(8::nat) = Suc (Suc (Suc (Suc (Suc (Suc (Suc (Suc 0)))))))" by simp
  then show ?thesis by (simp only: fillCounter.simps list_update_code)
qed

lemma counterBytes_nested:
  "counterBytes c =
     [of_int (c div 256 div 256 div 256 div 256 div 256 div 256 div 256),
      of_int (c div 256 div 256 div 256 div 256 div 256 div 256),
      of_int (c div 256 div 256 div 256 div 256 div 256),
      of_int (c div 256 div 256 div 256 div 256),
      of_int (c div 256 div 256 div 256),
      of_int (c div 256 div 256),
      of_int (c div 256),
      of_int c]"
proof -
  have "replicate 8 (0::byte) = [0, 0, 0, 0, 0, 0, 0, 0]"
    by (simp add: numeral_eq_Suc)
  then show ?thesis
    by (simp only: counterBytes_def fillCounter_8 of_int_js_rem)
qed

lemma uint_byte_of_int: "uint (of_int x :: byte) = x mod 256"
  by (simp add: uint_word_of_int)

lemma div_256_8:
  "(c::int) div 256 div 256 div 256 div 256 div 256 div 256 div 256 div 256 = c div 2 ^ 64"
proof -
  have "(2::int) ^ 64 = 256 * 256 * 256 * 256 * 256 * 256 * 256 * 256" by simp
  then show ?thesis
    by (simp only: zdiv_zmult2_eq zero_le_numeral)
qed

lemma mod_256_eq: "(x::int) mod 256 = x - 256 * (x div 256)"
  by (simp add: minus_mult_div_eq_mod)

lemma big_endian_sum:
  fixes c :: int
  shows "256 * (256 * (256 * (256 * (256 * (256 * (256 * (256 * 0
           + (c div 256 div 256 div 256 div 256 div 256 div 256 div 256) mod 256)
           + (c div 256 div 256 div 256 div 256 div 256 div 256) mod 256)
           + (c div 256 div 256 div 256 div 256 div 256) mod 256)
           + (c div 256 div 256 div 256 div 256) mod 256)
           + (c div 256 div 256 div 256) mod 256)
           + (c div 256 div 256) mod 256)
           + (c div 256) mod 256)
           + c mod 256 = c mod 2 ^ 64"
proof -
  define d1 where "d1 = c div 256"
  define d2 where "d2 = d1 div 256"
  define d3 where "d3 = d2 div 256"
  define d4 where "d4 = d3 div 256"
  define d5 where "d5 = d4 div 256"
  define d6 where "d6 = d5 div 256"
  define d7 where "d7 = d6 div 256"
  define d8 where "d8 = d7 div 256"
  have d8: "d8 = c div 2 ^ 64"
    by (simp only: d1_def d2_def d3_def d4_def d5_def d6_def d7_def d8_def div_256_8)
  have "c mod 2 ^ 64 = c - 2 ^ 64 * d8"
    unfolding d8 by (simp add: minus_mult_div_eq_mod)
  moreover have "256 * (256 * (256 * (256 * (256 * (256 * (256 * (256 * 0
           + (d7 - 256 * d8)) + (d6 - 256 * d7)) + (d5 - 256 * d6)) + (d4 - 256 * d5))
           + (d3 - 256 * d4)) + (d2 - 256 * d3)) + (d1 - 256 * d2)) + (c - 256 * d1)
         = c - 2 ^ 64 * d8"
    by simp
  ultimately have "256 * (256 * (256 * (256 * (256 * (256 * (256 * (256 * 0
           + d7 mod 256) + d6 mod 256) + d5 mod 256) + d4 mod 256)
           + d3 mod 256) + d2 mod 256) + d1 mod 256) + c mod 256
         = c mod 2 ^ 64"
    by (simp only: mod_256_eq [of d7] mod_256_eq [of d6] mod_256_eq [of d5] mod_256_eq [of d4]
        mod_256_eq [of d3] mod_256_eq [of d2] mod_256_eq [of d1] mod_256_eq [of c]
        d8_def [symmetric] d7_def [symmetric] d6_def [symmetric] d5_def [symmetric]
        d4_def [symmetric] d3_def [symmetric] d2_def [symmetric] d1_def [symmetric])
  then show ?thesis
    by (simp only: d1_def d2_def d3_def d4_def d5_def d6_def d7_def)
qed

lemma bigEndianValue_counterBytes: "bigEndianValue (counterBytes c) = c mod 2 ^ 64"
  unfolding counterBytes_nested bigEndianValue_def foldl.simps uint_byte_of_int
  by (rule big_endian_sum)

lemma floor_step: "\<lfloor>real_of_int timestamp / 1000 / 30\<rfloor> = timestamp div 30000"
proof -
  have "real_of_int timestamp / 1000 / 30 = real_of_int timestamp / real_of_int 30000"
    by simp
  then show ?thesis
    by (simp only: floor_divide_of_int_eq)
qed

text \<open>
  The binary64 division of the timestamp by 30000. Below \<open>2\<^sup>5\<^sup>3\<close> the quotient is below
  \<open>2\<^sup>3\<^sup>9\<close>, the binary64 numbers near it are at most \<open>2\<^sup>-\<^sup>1\<^sup>4\<close> apart, and this is less
  than twice the distance \<open>1 / 30000\<close> that keeps the quotient from the next integer: the
  rounding does not change the floor.
\<close>

lemma bitLength_le: "n < 2 ^ j \<Longrightarrow> bitLength n \<le> j"
proof (induction j arbitrary: n)
  case 0
  then show ?case by (simp add: bitLength.simps [of 0])
next
  case (Suc j)
  show ?case
  proof (cases "n = 0")
    case True
    then show ?thesis by (simp add: bitLength.simps [of 0])
  next
    case False
    from Suc.prems have "n div 2 < 2 ^ j"
      by (simp add: less_mult_imp_div_less mult.commute)
    from Suc.IH [OF this] False show ?thesis
      by (simp add: bitLength.simps [of n])
  qed
qed

lemma bitLength_30000: "bitLength 30000 = 15"
  by (simp add: bitLength.simps)

lemma quotientExponent_safe:
  assumes "a < 2 ^ 53"
  shows "quotientExponent a 30000 \<le> - 14"
proof -
  have "int (bitLength a) \<le> 53"
    using bitLength_le [OF assms] by simp
  then show ?thesis
    by (simp add: quotientExponent_def bitLength_30000 Let_def)
qed

text \<open>Rounding at a step of at most \<open>2 ^ - 14\<close> never reaches the next multiple of 30000.\<close>

lemma roundHalfEven_floor:
  assumes "14 \<le> k"
  shows "roundHalfEven (a * 2 ^ k) 30000 div 2 ^ k = a div 30000"
proof -
  define P :: nat where "P = 2 ^ k"
  define n s where "n = a div 30000" and "s = a mod 30000"
  define u r where "u = (s * P) div 30000" and "r = (s * P) mod 30000"
  have "(2::nat) ^ 14 \<le> 2 ^ k"
    using assms by (intro power_increasing) simp_all
  then have P: "16384 \<le> P"
    by (simp add: P_def)
  have a: "a = n * 30000 + s" and s: "s < 30000"
    by (simp_all add: n_def s_def)
  have ur: "30000 * u + r = s * P" and r: "r < 30000"
    by (simp_all add: u_def r_def)
  from s have "s * P \<le> 29999 * P"
    by (intro mult_le_mono1) simp
  with ur have bound: "30000 * u + r \<le> 29999 * P"
    by simp
  have num: "a * P = (n * P) * 30000 + s * P"
    by (simp add: a algebra_simps)
  have m0: "(a * P) div 30000 = n * P + u"
    unfolding num u_def by simp
  have r0: "(a * P) mod 30000 = r"
    unfolding num r_def by simp
  define m where "m = roundHalfEven (a * P) 30000"
  have up: "m = n * P + u \<or> (m = n * P + u + 1 \<and> 30000 \<le> 2 * r)"
    by (auto simp: m_def roundHalfEven_def Let_def m0 r0)
  have lo: "n * P \<le> m"
    using up by auto
  have hi: "m < n * P + P"
    using up bound P r by linarith
  have "m div P = n"
  proof (rule div_nat_eqI)
    show "P * n \<le> m"
      using lo by (simp add: mult.commute)
    show "m < P * Suc n"
      using hi by (simp add: mult.commute)
  qed
  then show ?thesis
    by (simp add: m_def P_def n_def)
qed

lemma counterOf_safe:
  assumes "0 \<le> timestamp" and "timestamp < 2 ^ 53"
  shows "counterOf timestamp = timestamp div 30000"
proof (cases "timestamp = 0")
  case True
  then show ?thesis by (simp add: counterOf_def floorDoubleDiv_def)
next
  case False
  define a where "a = nat timestamp"
  have a: "timestamp = int a" and pos: "0 < a"
    using assms(1) False by (simp_all add: a_def)
  have "a < 2 ^ 53"
    using assms by (simp add: a_def nat_less_iff)
  then have le: "quotientExponent a 30000 \<le> - 14"
    by (rule quotientExponent_safe)
  define k where "k = nat (- quotientExponent a 30000)"
  have e: "quotientExponent a 30000 = - int k" and k: "14 \<le> k"
    using le by (simp_all add: k_def)
  have "counterOf timestamp = int (roundHalfEven (a * 2 ^ k) 30000) div 2 ^ k"
    using pos k by (simp add: counterOf_def TIME_STEP_def floorDoubleDiv_def a e Let_def)
  also have "\<dots> = int (roundHalfEven (a * 2 ^ k) 30000 div 2 ^ k)"
    by (simp add: zdiv_int)
  also have "\<dots> = int (a div 30000)"
    by (simp only: roundHalfEven_floor [OF k])
  also have "\<dots> = timestamp div 30000"
    by (simp add: a zdiv_int)
  finally show ?thesis .
qed

text \<open>
  Two timestamps above \<open>2\<^sup>5\<^sup>3\<close> that binary64 holds (both are multiples of 64 near
  \<open>2\<^sup>5\<^sup>8\<close>) and that lie in the same 30-second step: at the later one the division rounds
  the quotient up to the next integer.
\<close>

lemma counterOf_large_upper: "counterOf 288230376151769984 = 9607679205059"
  by (simp add: counterOf_def TIME_STEP_def floorDoubleDiv_def quotientExponent_def
      roundHalfEven_def bitLength.simps Let_def)

lemma counterOf_large_lower: "counterOf 288230376151769920 = 9607679205058"
  by (simp add: counterOf_def TIME_STEP_def floorDoubleDiv_def quotientExponent_def
      roundHalfEven_def bitLength.simps Let_def)

lemma counterBytes_large_upper:
  "counterBytes 9607679205059 = [0, 0, 8, 188, 246, 78, 94, 195]"
  by (simp add: counterBytes_nested)

lemma counterBytes_large_lower:
  "counterBytes 9607679205058 = [0, 0, 8, 188, 246, 78, 94, 194]"
  by (simp add: counterBytes_nested)

lemma binaryOf_echo_upper:
  "binaryOf (195 # 94 # 78 # 246 # 188 # 8 # 0 # 0 # replicate 12 0) = Some 1130254070"
  by (simp add: binaryOf_def offsetOf_def byteAt_def replicate_numeral)

lemma binaryOf_echo_lower:
  "binaryOf (194 # 94 # 78 # 246 # 188 # 8 # 0 # 0 # replicate 12 0) = Some 1113476854"
  by (simp add: binaryOf_def offsetOf_def byteAt_def replicate_numeral)

lemma otpString_echo_upper: "otpString (otpOf (Some 1130254070)) = ''254070''"
  by (simp add: otpString_def otpOf_def padStart_def toStringRadix.simps digitChar_def)

lemma otpString_echo_lower: "otpString (otpOf (Some 1113476854)) = ''476854''"
  by (simp add: otpString_def otpOf_def padStart_def toStringRadix.simps digitChar_def)

lemma generateTOTP_echo_upper:
  "generateTOTP echoHmac ''JBSWY3DPEHPK3PXP'' 288230376151769984 = Inr ''254070''"
  by (simp add: generateTOTP_def generateHMAC_def echoHmac_def base32Decode_sample Let_def
      counterOf_large_upper counterBytes_large_upper binaryOf_echo_upper otpString_echo_upper)

lemma generateTOTP_echo_lower:
  "generateTOTP echoHmac ''JBSWY3DPEHPK3PXP'' 288230376151769920 = Inr ''476854''"
  by (simp add: generateTOTP_def generateHMAC_def echoHmac_def base32Decode_sample Let_def
      counterOf_large_lower counterBytes_large_lower binaryOf_echo_lower otpString_echo_lower)

lemma counterOf_59000: "counterOf 59000 = 1"
  by (simp add: counterOf_safe)

lemma counterBytes_1: "counterBytes 1 = [0, 0, 0, 0, 0, 0, 0, 1]"
  by (simp add: counterBytes_nested)

lemma binaryOf_echo_1: "binaryOf (1 # 0 # 0 # 0 # 0 # 0 # 0 # 0 # replicate 12 0) = Some 16777216"
  by (simp add: binaryOf_def offsetOf_def byteAt_def replicate_numeral)

lemma otpString_echo_1: "otpString (otpOf (Some 16777216)) = ''777216''"
  by (simp add: otpString_def otpOf_def padStart_def toStringRadix.simps digitChar_def)

lemma generateTOTP_echo_59000:
  "generateTOTP echoHmac ''JBSWY3DPEHPK3PXP'' 59000 = Inr ''777216''"
  by (simp add: generateTOTP_def generateHMAC_def echoHmac_def base32Decode_sample Let_def
      counterOf_59000 counterBytes_1 binaryOf_echo_1 otpString_echo_1)

text \<open>
  Claim C5, amended. For a non-negative integer timestamp below \<open>2\<^sup>5\<^sup>3\<close> the counter of
  \<^verbatim>\<open>generateTOTP\<close> is \<open>\<lfloor>timestamp / 1000 / 30\<rfloor>\<close>, which is also the two-stage integer
  division; its serialization has exactly 8 bytes whose big-endian value (byte 0 the most
  significant) is the counter; and when the secret decodes, \<^verbatim>\<open>generateTOTP\<close> hands
  exactly these bytes to HMAC as the message and returns what it makes of the digest.
\<close>

theorem counter_derivation:
  assumes "0 \<le> timestamp" and "timestamp < 2 ^ 53" and "base32Decode secret = Inr key"
  shows "counterOf timestamp = timestamp div 1000 div 30
    \<and> counterOf timestamp = \<lfloor>real_of_int timestamp / 1000 / 30\<rfloor>
    \<and> length (counterBytes (counterOf timestamp)) = 8
    \<and> bigEndianValue (counterBytes (counterOf timestamp)) = counterOf timestamp
    \<and> generateTOTP H secret timestamp =
          (case H key (counterBytes (timestamp div 1000 div 30)) of
             None \<Rightarrow> Inl HmacFailure
           | Some hmac \<Rightarrow> Inr (otpString (otpOf (binaryOf hmac))))"
proof -
  have c: "counterOf timestamp = timestamp div 30000"
    using assms(1,2) by (rule counterOf_safe)
  have two: "timestamp div 30000 = timestamp div 1000 div 30"
    using zdiv_zmult2_eq [of 30 timestamp 1000] by simp
  have c1: "counterOf timestamp = timestamp div 1000 div 30"
    using c two by simp
  have c2: "counterOf timestamp = \<lfloor>real_of_int timestamp / 1000 / 30\<rfloor>"
    using c by (simp only: floor_step)
  have nonneg: "0 \<le> counterOf timestamp"
    using assms(1) by (simp add: c pos_imp_zdiv_nonneg_iff)
  define q r where "q = timestamp div 30000" and "r = timestamp mod 30000"
  have "timestamp = 30000 * q + r" and "0 \<le> r" and "0 \<le> q"
    using assms(1) by (simp_all add: q_def r_def pos_imp_zdiv_nonneg_iff)
  with assms(2) have "q < 2 ^ 64"
    by simp
  then have small: "counterOf timestamp < 2 ^ 64"
    by (simp add: c q_def)
  have len: "length (counterBytes (counterOf timestamp)) = 8"
    by (simp add: counterBytes_nested)
  have val: "bigEndianValue (counterBytes (counterOf timestamp)) = counterOf timestamp"
    using nonneg small by (simp add: bigEndianValue_counterBytes)
  have gen: "generateTOTP H secret timestamp =
          (case H key (counterBytes (timestamp div 1000 div 30)) of
             None \<Rightarrow> Inl HmacFailure
           | Some hmac \<Rightarrow> Inr (otpString (otpOf (binaryOf hmac))))"
    using assms(3) by (simp add: generateTOTP_def generateHMAC_def Let_def c1 split: option.splits)
  from c1 c2 len val gen show ?thesis by blast
qed

theorem counter_derivation_witness:
  "(0::int) \<le> 59000 \<and> (59000::int) < 2 ^ 53
   \<and> base32Decode ''JBSWY3DPEHPK3PXP'' = Inr [72, 101, 108, 108, 111, 33, 222, 173, 190, 239]
   \<and> counterOf 59000 = 1
   \<and> counterBytes (counterOf 59000) = [0, 0, 0, 0, 0, 0, 0, 1]
   \<and> bigEndianValue (counterBytes (counterOf 59000)) = 1
   \<and> generateTOTP echoHmac ''JBSWY3DPEHPK3PXP'' 59000 = Inr ''777216''"
  using counter_derivation [where timestamp = 59000 and H = echoHmac, OF _ _ base32Decode_sample]
  by (simp add: counterOf_59000 counterBytes_1 base32Decode_sample generateTOTP_echo_59000)

text \<open>
  Claim C5 as it was stated, for every non-negative integer timestamp, fails: at
  288230376151769984 the code's counter is 9607679205059, one more than the floor
  of the exact quotient.
\<close>

theorem counter_derivation_counterexample:
  "(0::int) \<le> 288230376151769984
   \<and> (288230376151769984::int) div 1000 div 30 = 9607679205058
   \<and> counterOf 288230376151769984 = 9607679205059
   \<and> counterOf 288230376151769984 \<noteq> 288230376151769984 div 1000 div 30
   \<and> counterBytes (counterOf 288230376151769984) = [0, 0, 8, 188, 246, 78, 94, 195]"
  by (simp add: counterOf_large_upper counterBytes_large_upper)

section \<open>Dynamic truncation\<close>

text \<open>On a byte, \<^verbatim>\<open>% 128\<close> is the bitwise AND with \<open>0x7F\<close>, and \<^verbatim>\<open>% 256\<close> changes nothing.\<close>

lemma mask7: "(0x7F :: byte) = mask 7"
  by (simp add: mask_eq_exp_minus_1)

lemma unat_and_7F: "unat ((w :: byte) AND 0x7F) = unat w mod 128"
proof -
  have "w AND 0x7F = take_bit 7 w"
    by (simp only: mask7 take_bit_eq_mask)
  then have "unat (w AND 0x7F) = take_bit 7 (unat w)"
    by (simp only: unsigned_take_bit_eq)
  then show ?thesis by (simp add: take_bit_eq_mod)
qed

lemma offsetOf_20:
  assumes "length hmac = 20"
  shows "offsetOf hmac = Some (unat (hmac ! 19) mod 16)"
  using assms by (auto simp: offsetOf_def byteAt_def)

lemma binaryOf_in_range:
  assumes "offsetOf hmac = Some offset" and "offset + 3 < length hmac"
  shows "binaryOf hmac =
     Some (unat (hmac ! offset AND 0x7F) * 2 ^ 24 + unat (hmac ! (offset + 1)) * 2 ^ 16
           + unat (hmac ! (offset + 2)) * 2 ^ 8 + unat (hmac ! (offset + 3)))"
proof -
  have m: "unat (hmac ! k) mod 256 = unat (hmac ! k)" for k
    using unat_byte_lt [of "hmac ! k"] by simp
  from assms show ?thesis
    by (simp add: binaryOf_def byteAt_def unat_and_7F m)
qed

lemma binaryOf_20:
  assumes "length hmac = 20"
  shows "\<exists>binary. binaryOf hmac = Some binary"
proof -
  have "unat (hmac ! 19) mod 16 \<le> 15"
    using mod_less_divisor [of 16 "unat (hmac ! 19)"] by linarith
  then have "unat (hmac ! 19) mod 16 + 3 < length hmac"
    using assms by simp
  with offsetOf_20 [OF assms] show ?thesis
    by (simp add: binaryOf_in_range)
qed

lemma truncated_bound:
  fixes b0 b1 b2 b3 :: nat
  assumes "b0 < 128" and "b1 < 256" and "b2 < 256" and "b3 < 256"
  shows "b0 * 2 ^ 24 + b1 * 2 ^ 16 + b2 * 2 ^ 8 + b3 < 2 ^ 31"
  using assms by simp

text \<open>
  Claim C4. When the HMAC provider returns a digest of 20 bytes, \<^verbatim>\<open>generateTOTP\<close> takes
  the offset \<open>digest[19] mod 16\<close>, which is at most 15, so that the four positions from
  \<open>offset\<close> to \<open>offset + 3\<close> are at most 19; the value is
  \<open>(digest[offset] & 0x7F) * 2\<^sup>2\<^sup>4 + digest[offset+1] * 2\<^sup>1\<^sup>6 + digest[offset+2] * 2\<^sup>8 + digest[offset+3]\<close>,
  where the AND with \<open>0x7F\<close> is the remainder modulo 128 of the unsigned byte; the value is
  below \<open>2\<^sup>3\<^sup>1\<close>, and the code returned is made from this value modulo 1000000.
\<close>

theorem generateTOTP_dynamic_truncation:
  assumes "base32Decode secret = Inr key"
    and "H key (counterBytes (counterOf timestamp)) = Some hmac"
    and "length hmac = 20"
  shows "\<exists>offset value.
      offsetOf hmac = Some offset
    \<and> offset = unat (hmac ! 19) mod 16 \<and> offset \<le> 15 \<and> offset + 3 \<le> 19
    \<and> binaryOf hmac = Some value
    \<and> value = unat (hmac ! offset AND 0x7F) * 2 ^ 24 + unat (hmac ! (offset + 1)) * 2 ^ 16
              + unat (hmac ! (offset + 2)) * 2 ^ 8 + unat (hmac ! (offset + 3))
    \<and> unat (hmac ! offset AND 0x7F) = unat (hmac ! offset) mod 128
    \<and> value < 2 ^ 31
    \<and> generateTOTP H secret timestamp = Inr (otpString (Some (value mod 1000000)))"
proof -
  define offset where "offset = unat (hmac ! 19) mod 16"
  define binary where "binary = unat (hmac ! offset AND 0x7F) * 2 ^ 24
      + unat (hmac ! (offset + 1)) * 2 ^ 16 + unat (hmac ! (offset + 2)) * 2 ^ 8
      + unat (hmac ! (offset + 3))"
  have off: "offsetOf hmac = Some offset"
    using assms(3) by (simp add: offsetOf_20 offset_def)
  have le: "offset \<le> 15"
    unfolding offset_def using mod_less_divisor [of 16 "unat (hmac ! 19)"] by linarith
  then have rng: "offset + 3 < length hmac" and le19: "offset + 3 \<le> 19"
    using assms(3) by simp_all
  have bin: "binaryOf hmac = Some binary"
    unfolding binary_def using off rng by (rule binaryOf_in_range)
  have "unat (hmac ! offset AND 0x7F) < 128"
    by (simp add: unat_and_7F)
  then have bound: "binary < 2 ^ 31"
    unfolding binary_def
    by (intro truncated_bound unat_byte_lt)
  have gen: "generateTOTP H secret timestamp = Inr (otpString (Some (binary mod 1000000)))"
    using assms(1,2) bin
    by (simp add: generateTOTP_def generateHMAC_def otpOf_def Let_def)
  from off le le19 bin bound gen show ?thesis
    unfolding offset_def [symmetric]
    by (intro exI [of _ offset] exI [of _ binary]) (simp add: binary_def unat_and_7F offset_def)
qed

theorem generateTOTP_dynamic_truncation_witness:
  "base32Decode ''JBSWY3DPEHPK3PXP'' = Inr [72, 101, 108, 108, 111, 33, 222, 173, 190, 239]
   \<and> fixedHmac [72, 101, 108, 108, 111, 33, 222, 173, 190, 239] (counterBytes (counterOf 59000))
       = Some rfc4226_digest
   \<and> length rfc4226_digest = 20
   \<and> offsetOf rfc4226_digest = Some 10
   \<and> binaryOf rfc4226_digest = Some 1357872921
   \<and> (1357872921 :: nat) < 2 ^ 31
   \<and> generateTOTP fixedHmac ''JBSWY3DPEHPK3PXP'' 59000 = Inr (otpString (Some 872921))"
proof -
  from generateTOTP_dynamic_truncation
    [where H = fixedHmac and timestamp = 59000 and hmac = rfc4226_digest,
      OF base32Decode_sample fixedHmac_sample rfc4226_digest_length]
  obtain offset v where "offsetOf rfc4226_digest = Some offset"
    and "binaryOf rfc4226_digest = Some v" and "v < 2 ^ 31"
    and "generateTOTP fixedHmac ''JBSWY3DPEHPK3PXP'' 59000 = Inr (otpString (Some (v mod 1000000)))"
    by blast
  then show ?thesis
    by (simp add: base32Decode_sample fixedHmac_sample rfc4226_digest_length offsetOf_sample
        binaryOf_sample)
qed

section \<open>The format of the code\<close>

lemma isDigit_zero: "isDigit (CHR ''0'')"
  by (simp add: isDigit_def)

lemma padStart_digits:
  "list_all isDigit (padStart 6 (CHR ''0'') (toStringRadix 10 n))"
  using toStringRadix_10_digits [of n] by (auto simp: padStart_def list_all_iff isDigit_zero)

lemma padStart_digitsValue:
  "digitsValue (padStart 6 (CHR ''0'') (toStringRadix 10 n)) = n"
  by (simp add: padStart_def digitsValue_zeros digitsValue_toStringRadix)

text \<open>
  Claim C7. Whenever \<^verbatim>\<open>generateTOTP\<close> succeeds, with an HMAC provider whose digests have
  20 bytes, the string returned has exactly 6 characters, all of them decimal digits, and
  it is the decimal rendering, padded with zeros on the left, of the truncated value
  modulo 1000000; the value 42 is rendered as \<open>000042\<close>.
\<close>

theorem generateTOTP_fixed_width:
  assumes "generateTOTP H secret timestamp = Inr code"
    and "\<forall>key hmac. H key (counterBytes (counterOf timestamp)) = Some hmac \<longrightarrow> length hmac = 20"
  shows "length code = 6 \<and> list_all isDigit code
    \<and> (\<exists>key hmac binary.
          base32Decode secret = Inr key
        \<and> H key (counterBytes (counterOf timestamp)) = Some hmac
        \<and> binaryOf hmac = Some binary
        \<and> code = padStart 6 (CHR ''0'') (toStringRadix 10 (binary mod 1000000))
        \<and> digitsValue code = binary mod 1000000)
    \<and> padStart 6 (CHR ''0'') (toStringRadix 10 (42 mod 1000000)) = ''000042''"
proof -
  from generateTOTP_Inr [OF assms(1)] obtain key hmac
    where key: "base32Decode secret = Inr key"
      and hmac: "H key (counterBytes (counterOf timestamp)) = Some hmac"
      and code: "code = otpString (otpOf (binaryOf hmac))"
    by blast
  from assms(2) hmac have "length hmac = 20"
    by blast
  from binaryOf_20 [OF this] obtain b where b: "binaryOf hmac = Some b"
    by blast
  have code': "code = padStart 6 (CHR ''0'') (toStringRadix 10 (b mod 1000000))"
    by (simp add: code b otpString_def otpOf_def)
  have len: "length code = 6"
    by (rule generateTOTP_length [OF assms(1)])
  have dig: "list_all isDigit code"
    unfolding code' by (rule padStart_digits)
  have val: "digitsValue code = b mod 1000000"
    unfolding code' by (rule padStart_digitsValue)
  have ex: "padStart 6 (CHR ''0'') (toStringRadix 10 (42 mod 1000000)) = ''000042''"
    by (simp add: padStart_def toStringRadix.simps digitChar_def replicate_numeral)
  from key hmac b code' val have "\<exists>key hmac binary.
          base32Decode secret = Inr key
        \<and> H key (counterBytes (counterOf timestamp)) = Some hmac
        \<and> binaryOf hmac = Some binary
        \<and> code = padStart 6 (CHR ''0'') (toStringRadix 10 (binary mod 1000000))
        \<and> digitsValue code = binary mod 1000000"
    by blast
  with len dig ex show ?thesis by blast
qed

theorem generateTOTP_fixed_width_witness:
  "generateTOTP fixedHmac ''JBSWY3DPEHPK3PXP'' 59000 = Inr ''872921''
   \<and> length ''872921'' = 6 \<and> list_all isDigit ''872921''
   \<and> binaryOf rfc4226_digest = Some 1357872921
   \<and> ''872921'' = padStart 6 (CHR ''0'') (toStringRadix 10 (1357872921 mod 1000000))
   \<and> digitsValue ''872921'' = 1357872921 mod 1000000"
proof -
  have h: "\<forall>key hmac. fixedHmac key (counterBytes (counterOf 59000)) = Some hmac
      \<longrightarrow> length hmac = 20"
    using fixedHmac_length by blast
  from generateTOTP_fixed_width [where H = fixedHmac and timestamp = 59000,
      OF generateTOTP_sample h]
  have "length ''872921'' = 6 \<and> list_all isDigit ''872921''"
    by blast
  then show ?thesis
    by (simp add: generateTOTP_sample binaryOf_sample padStart_def toStringRadix.simps
        digitChar_def digitsValue_def)
qed

section \<open>Verification\<close>

text \<open>
  Claim C6. Whenever generation succeeds with some code, \<^verbatim>\<open>verifyTOTP\<close> returns (and does
  not throw) the truth value of the string equality between that code and the candidate:
  \<open>true\<close> for the generated code itself, \<open>false\<close> for every other candidate.
\<close>

theorem verifyTOTP_correct:
  assumes "generateTOTP H secret timestamp = Inr code"
  shows "verifyTOTP H secret candidate timestamp = Inr (code = candidate)
    \<and> verifyTOTP H secret code timestamp = Inr True
    \<and> (candidate \<noteq> code \<longrightarrow> verifyTOTP H secret candidate timestamp = Inr False)"
  using assms by (auto simp: verifyTOTP_def)

theorem verifyTOTP_correct_witness:
  "generateTOTP fixedHmac ''JBSWY3DPEHPK3PXP'' 59000 = Inr ''872921''
   \<and> verifyTOTP fixedHmac ''JBSWY3DPEHPK3PXP'' ''872921'' 59000 = Inr True
   \<and> ''000000'' \<noteq> ''872921''
   \<and> verifyTOTP fixedHmac ''JBSWY3DPEHPK3PXP'' ''000000'' 59000 = Inr False"
  using verifyTOTP_correct [where H = fixedHmac and secret = "''JBSWY3DPEHPK3PXP''"
      and timestamp = 59000 and code = "''872921''" and candidate = "''000000''"]
    generateTOTP_sample [of 59000]
  by simp

text \<open>
  Claim C10. Whenever generation succeeds, \<^verbatim>\<open>verifyTOTP\<close> returns \<open>false\<close> for every
  candidate whose length is not 6.
\<close>

theorem verifyTOTP_wrong_length:
  assumes "generateTOTP H secret timestamp = Inr code" and "length candidate \<noteq> 6"
  shows "verifyTOTP H secret candidate timestamp = Inr False"
  using assms generateTOTP_length [OF assms(1)] by (auto simp: verifyTOTP_def)

theorem verifyTOTP_wrong_length_witness:
  "generateTOTP fixedHmac ''JBSWY3DPEHPK3PXP'' 59000 = Inr ''872921''
   \<and> length ''8729210'' \<noteq> 6
   \<and> verifyTOTP fixedHmac ''JBSWY3DPEHPK3PXP'' ''8729210'' 59000 = Inr False"
  using verifyTOTP_wrong_length [where H = fixedHmac and secret = "''JBSWY3DPEHPK3PXP''"
      and timestamp = 59000 and code = "''872921''" and candidate = "''8729210''"]
    generateTOTP_sample [of 59000]
  by simp

section \<open>Time steps\<close>

text \<open>
  Claim C8, amended. For every secret and HMAC provider, two non-negative timestamps below
  \<open>2\<^sup>5\<^sup>3\<close> in the same 30-second step (equal quotients by 30000) give the same result
  of \<^verbatim>\<open>generateTOTP\<close>; the timestamps 0 and 29999 are such a pair.
\<close>

theorem generateTOTP_same_step:
  assumes "0 \<le> t1" and "t1 < 2 ^ 53" and "0 \<le> t2" and "t2 < 2 ^ 53"
    and "t1 div 30000 = t2 div 30000"
  shows "generateTOTP H secret t1 = generateTOTP H secret t2"
proof -
  have "counterOf t1 = counterOf t2"
    using assms by (simp add: counterOf_safe)
  then show ?thesis by (simp add: generateTOTP_def)
qed

theorem generateTOTP_same_step_witness:
  "(0::int) \<le> 0 \<and> (0::int) < 2 ^ 53 \<and> (0::int) \<le> 29999 \<and> (29999::int) < 2 ^ 53
   \<and> (0::int) div 30000 = 29999 div 30000
   \<and> (\<forall>H secret. generateTOTP H secret 0 = generateTOTP H secret 29999)"
  using generateTOTP_same_step [of 0 29999] by simp

text \<open>
  Claim C8 as it was stated, for every pair of non-negative timestamps in the same step,
  fails: 288230376151769920 and 288230376151769984 have the same quotient by 30000, the
  code derives the counters 9607679205058 and 9607679205059 from them, and with a
  provider whose digest depends on the message the two codes differ.
\<close>

theorem generateTOTP_same_step_counterexample:
  "(0::int) \<le> 288230376151769920 \<and> (0::int) \<le> 288230376151769984
   \<and> (288230376151769920::int) div 30000 = 288230376151769984 div 30000
   \<and> generateTOTP echoHmac ''JBSWY3DPEHPK3PXP'' 288230376151769920
     \<noteq> generateTOTP echoHmac ''JBSWY3DPEHPK3PXP'' 288230376151769984"
  by (simp add: generateTOTP_echo_lower generateTOTP_echo_upper)

end
